theory Spec2Isabelle
  imports Main "HOL-Library.Word" "HOL-Library.Monad_Syntax"
begin

unbundle bit_operations_syntax

section \<open>Tribonacci weights (tribonacci.py)\<close>

text \<open>
  Python integers are unbounded, so they are \<open>int\<close>. A Python \<open>str\<close> of digits is a
  \<open>string\<close>; a text is the list of its code points (\<open>ord\<close> of each character), so that
  \<open>len\<close> counts characters as Python does.
\<close>

type_synonym pystr = "int list"

text \<open>
  The growth loop of \<open>generate_tribonacci\<close>:
  \<^verbatim>\<open>
    while tribonacci[-1] < max_value:
        next_term = tribonacci[-1] + tribonacci[-2] + tribonacci[-3]
        if next_term > max_value: break
        tribonacci.append(next_term)
  \<close>
  Started on an arbitrary list the loop need not stop (on \<open>[0,0,0]\<close> with bound 1 it
  appends 0 for ever), so not returning is the value \<open>None\<close>.
\<close>

partial_function (option) trib_loop :: "int \<Rightarrow> int list \<Rightarrow> int list option" where
  "trib_loop max_value tribonacci =
     (if last tribonacci < max_value then
        (let next_term = last tribonacci
                         + tribonacci ! (length tribonacci - 2)
                         + tribonacci ! (length tribonacci - 3)
         in if next_term > max_value then Some tribonacci
            else trib_loop max_value (tribonacci @ [next_term]))
      else Some tribonacci)"

declare trib_loop.simps [code]

definition generate_tribonacci :: "int \<Rightarrow> int list option" where
  "generate_tribonacci max_value =
     (if max_value < 1 then Some [] else trib_loop max_value [1, 2, 4])"

section \<open>Integers to and from GZR digit strings\<close>

text \<open>
  One turn of \<open>for t in reversed(tribonacci_seq)\<close> in \<open>decimal_to_gzr\<close>, on the loop
  state \<open>(bits, remaining)\<close>.
\<close>

definition greedy_step :: "int \<Rightarrow> string \<times> int \<Rightarrow> string \<times> int" where
  "greedy_step t = (\<lambda>(bits, remaining).
     if t \<le> remaining then (bits @ ''1'', remaining - t) else (bits @ ''0'', remaining))"

text \<open>\<open>str.lstrip('0')\<close>.\<close>

definition lstrip_zeros :: "string \<Rightarrow> string" where
  "lstrip_zeros s = dropWhile (\<lambda>c. c = CHR ''0'') s"

text \<open>
  \<open>decimal_to_gzr(n, tribonacci_seq=None)\<close>; the optional argument is an \<open>option\<close>, and
  the result is an \<open>option\<close> because the default sequence comes from the growth loop.
\<close>

definition decimal_to_gzr :: "int \<Rightarrow> int list option \<Rightarrow> string option" where
  "decimal_to_gzr n tribonacci_seq =
     (if n \<le> 0 then Some ''0''
      else do {
        seq \<leftarrow> (case tribonacci_seq of None \<Rightarrow> generate_tribonacci n | Some s \<Rightarrow> Some s);
        let (bits, remaining) = fold greedy_step (rev seq) ([], n);
        let result = lstrip_zeros (rev bits);
        Some (if result \<noteq> [] then result else ''0'')
      })"

text \<open>
  \<open>gzr_to_decimal(gzr_bits, tribonacci_seq=None)\<close>: the loop over
  \<open>enumerate(gzr_bits)\<close> adds the weight at every position that holds \<open>'1'\<close> and lies
  inside the sequence.
\<close>

definition add_weight :: "int list \<Rightarrow> nat \<times> char \<Rightarrow> int \<Rightarrow> int" where
  "add_weight seq = (\<lambda>(i, bit) result.
     if bit = CHR ''1'' \<and> i < length seq then result + seq ! i else result)"

definition gzr_to_decimal :: "string \<Rightarrow> int list option \<Rightarrow> int option" where
  "gzr_to_decimal gzr_bits tribonacci_seq =
     (if gzr_bits = [] \<or> gzr_bits = ''0'' then Some 0
      else do {
        seq \<leftarrow> (case tribonacci_seq of
                 None \<Rightarrow> generate_tribonacci (2 ^ length gzr_bits)
               | Some s \<Rightarrow> Some s);
        Some (fold (add_weight seq) (enumerate 0 gzr_bits) 0)
      })"

section \<open>Text to and from GZR bit strings\<close>

text \<open>
  \<open>str.zfill(width)\<close>: zeros are put in front, after a leading sign character if there
  is one.
\<close>

definition zfill :: "nat \<Rightarrow> string \<Rightarrow> string" where
  "zfill w s =
     (if w \<le> length s then s
      else case s of
             [] \<Rightarrow> replicate w (CHR ''0'')
           | c # cs \<Rightarrow>
               if c = CHR ''+'' \<or> c = CHR ''-''
               then c # replicate (w - length s) (CHR ''0'') @ cs
               else replicate (w - length s) (CHR ''0'') @ s)"

text \<open>
  The loop \<open>for char in text\<close> of \<open>text_to_gzr\<close>, on the list \<open>gzr_bits\<close> of slots
  collected so far; \<open>ord(char)\<close> is the code point itself.
\<close>

fun text_to_gzr_loop :: "int list \<Rightarrow> pystr \<Rightarrow> string list \<Rightarrow> string list option" where
  "text_to_gzr_loop seq [] gzr_bits = Some gzr_bits"
| "text_to_gzr_loop seq (char # rest) gzr_bits =
     do {
       gzr \<leftarrow> decimal_to_gzr char (Some seq);
       text_to_gzr_loop seq rest (gzr_bits @ [zfill 9 gzr])
     }"

definition text_to_gzr :: "pystr \<Rightarrow> string option" where
  "text_to_gzr txt =
     do {
       tribonacci_seq \<leftarrow> generate_tribonacci 255;
       gzr_bits \<leftarrow> text_to_gzr_loop tribonacci_seq txt [];
       Some (concat gzr_bits)
     }"

text \<open>\<open>range(start, stop, step)\<close> for a positive step and \<open>start \<le> stop\<close>.\<close>

definition py_range :: "nat \<Rightarrow> nat \<Rightarrow> nat \<Rightarrow> nat list" where
  "py_range start stop step =
     map (\<lambda>k. start + k * step) [0 ..< (stop - start + step - 1) div step]"

text \<open>
  The loop \<open>for i in range(0, len(gzr_bits), chunk_size)\<close> of \<open>gzr_to_text\<close>. The slice
  \<open>gzr_bits[i:i + 9]\<close> is \<open>take 9 (drop i gzr_bits)\<close>. \<open>chr(ascii_val)\<close> gives the code
  point \<open>ascii_val\<close>; it is called on values between 1 and the sum of the weights only
  (lemma \<open>gzr_to_decimal_bounds\<close>), which is inside the range \<open>chr\<close> accepts.
\<close>

fun gzr_to_text_loop :: "int list \<Rightarrow> string \<Rightarrow> nat list \<Rightarrow> pystr \<Rightarrow> pystr option" where
  "gzr_to_text_loop seq gzr_bits [] chars = Some chars"
| "gzr_to_text_loop seq gzr_bits (i # is) chars =
     (let chunk = take 9 (drop i gzr_bits) in
      if length chunk = 9 then
        do {
          ascii_val \<leftarrow> gzr_to_decimal chunk (Some seq);
          gzr_to_text_loop seq gzr_bits is
            (if ascii_val > 0 then chars @ [ascii_val] else chars)
        }
      else gzr_to_text_loop seq gzr_bits is chars)"

definition gzr_to_text :: "string \<Rightarrow> pystr option" where
  "gzr_to_text gzr_bits =
     do {
       tribonacci_seq \<leftarrow> generate_tribonacci 255;
       gzr_to_text_loop tribonacci_seq gzr_bits (py_range 0 (length gzr_bits) 9) []
     }"

text \<open>
  \<open>gzr_bits.count("111")\<close> counts occurrences from left to right without overlap.
\<close>

fun count_111 :: "string \<Rightarrow> nat" where
  "count_111 (a # b # c # rest) =
     (if a = CHR ''1'' \<and> b = CHR ''1'' \<and> c = CHR ''1''
      then Suc (count_111 rest) else count_111 (b # c # rest))"
| "count_111 _ = 0"

definition verify_no_111_pattern :: "string \<Rightarrow> bool \<times> nat" where
  "verify_no_111_pattern gzr_bits =
     (let count = count_111 gzr_bits; is_valid = (count = 0) in (is_valid, count))"

section \<open>Pixel arrays and the object store (encoder.py, decoder.py)\<close>

text \<open>
  The exceptions the modelled code can raise: the \<open>ValueError\<close> of \<open>encode_message\<close>
  for a message that is too large (with the required and the available bytes), and the
  \<open>ValueError\<close> of \<open>int(bits[bit_index])\<close> on a character that is not a digit.
\<close>

datatype error = MessageTooLarge nat nat | InvalidLiteral char

text \<open>
  A grey-scale image is a numpy array of \<open>uint8\<close> with two axes: its shape and its
  buffer in row-major order, so that \<open>a[i, j]\<close> is the cell \<open>i * width + j\<close>. Arrays
  are mutable objects that can be shared, so they live in a store and are passed by
  address; \<open>copy\<close> allocates a new array.
\<close>

record ndarray =
  height :: nat
  width :: nat
  cells :: "8 word list"

type_synonym addr = nat
type_synonym heap = "ndarray list"

definition wf_array :: "ndarray \<Rightarrow> bool" where
  "wf_array a \<longleftrightarrow> length (cells a) = height a * width a"

definition shape :: "heap \<Rightarrow> addr \<Rightarrow> nat \<times> nat" where
  "shape h a = (height (h ! a), width (h ! a))"

definition getitem :: "heap \<Rightarrow> addr \<Rightarrow> nat \<Rightarrow> nat \<Rightarrow> 8 word" where
  "getitem h a i j = cells (h ! a) ! (i * width (h ! a) + j)"

definition setitem :: "heap \<Rightarrow> addr \<Rightarrow> nat \<Rightarrow> nat \<Rightarrow> 8 word \<Rightarrow> heap" where
  "setitem h a i j v =
     h[a := (h ! a)\<lparr>cells := (cells (h ! a))[i * width (h ! a) + j := v]\<rparr>]"

definition ndarray_copy :: "heap \<Rightarrow> addr \<Rightarrow> addr \<times> heap" where
  "ndarray_copy h a = (length h, h @ [h ! a])"

text \<open>
  How a loop body ends: it falls through to the next turn, it executes \<open>return\<close>, or it
  raises.
\<close>

datatype ctl = Continue | Returned | Raised error

text \<open>\<open>int(c)\<close> for a string of one character.\<close>

definition int_of_char :: "char \<Rightarrow> nat option" where
  "int_of_char c =
     (let k = (of_char c :: nat) in if 48 \<le> k \<and> k \<le> 57 then Some (k - 48) else None)"

subsection \<open>Embedding\<close>

text \<open>
  The inner loop \<open>for j in range(width)\<close> of \<open>_embed_bits\<close> for row \<open>i\<close>, on the store
  and \<open>bit_index\<close>; \<open>stego\<close> is the address of the copy. The pixel is read as a Python
  integer, the new value is computed on integers and stored back into the \<open>uint8\<close> cell.
\<close>

fun embed_cols :: "string \<Rightarrow> addr \<Rightarrow> nat \<Rightarrow> nat list \<Rightarrow> heap \<times> nat \<Rightarrow> ctl \<times> heap \<times> nat" where
  "embed_cols bits stego i [] st = (Continue, st)"
| "embed_cols bits stego i (j # js) (h, bit_index) =
     (if bit_index \<ge> length bits then (Returned, h, bit_index)
      else
        let pixel_value = uint (getitem h stego i j) in
        case int_of_char (bits ! bit_index) of
          None \<Rightarrow> (Raised (InvalidLiteral (bits ! bit_index)), h, bit_index)
        | Some bit_to_embed \<Rightarrow>
            let new_pixel = (pixel_value AND 0xFE) OR int bit_to_embed
            in embed_cols bits stego i js
                 (setitem h stego i j (word_of_int new_pixel), bit_index + 1))"

text \<open>The outer loop \<open>for i in range(height)\<close>.\<close>

fun embed_rows :: "string \<Rightarrow> addr \<Rightarrow> nat \<Rightarrow> nat list \<Rightarrow> heap \<times> nat \<Rightarrow> ctl \<times> heap \<times> nat" where
  "embed_rows bits stego w [] st = (Continue, st)"
| "embed_rows bits stego w (i # is) st =
     (case embed_cols bits stego i [0 ..< w] st of
        (Continue, st') \<Rightarrow> embed_rows bits stego w is st'
      | (Returned, st') \<Rightarrow> (Returned, st')
      | (Raised e, st') \<Rightarrow> (Raised e, st'))"

text \<open>
  \<open>_embed_bits(self, bits)\<close>, given the address \<open>self.image\<close>: the result is the address
  of the stego array, or the exception, and the store afterwards.
\<close>

definition embed_bits :: "heap \<Rightarrow> addr \<Rightarrow> string \<Rightarrow> (error + addr) \<times> heap" where
  "embed_bits h img bits =
     (let (stego, h1) = ndarray_copy h img;
          (height, width) = shape h1 stego
      in case embed_rows bits stego width [0 ..< height] (h1, 0) of
           (Raised e, h2, _) \<Rightarrow> (Inl e, h2)
         | (_, h2, _) \<Rightarrow> (Inr stego, h2))"

subsection \<open>Extraction\<close>

text \<open>
  \<open>str(pixel_value & 1)\<close>: the value is 0 or 1, so the string is one digit.
\<close>

definition lsb_char :: "8 word \<Rightarrow> char" where
  "lsb_char p = (if uint p AND 1 = 0 then CHR ''0'' else CHR ''1'')"

text \<open>
  The loops of \<open>_extract_bits(self, start_bit, length)\<close>, on the collected digits (the
  list \<open>bits\<close>, joined) and \<open>bit_index\<close>.
\<close>

fun extract_cols :: "heap \<Rightarrow> addr \<Rightarrow> int \<Rightarrow> int \<Rightarrow> nat \<Rightarrow> nat list \<Rightarrow> string \<times> nat \<Rightarrow> ctl \<times> string \<times> nat" where
  "extract_cols h img start_bit len i [] st = (Continue, st)"
| "extract_cols h img start_bit len i (j # js) (bits, bit_index) =
     (let bits' = (if int bit_index \<ge> start_bit \<and> int bit_index < start_bit + len
                   then bits @ [lsb_char (getitem h img i j)] else bits);
          bit_index' = bit_index + 1
      in if int bit_index' \<ge> start_bit + len then (Returned, bits', bit_index')
         else extract_cols h img start_bit len i js (bits', bit_index'))"

fun extract_rows :: "heap \<Rightarrow> addr \<Rightarrow> int \<Rightarrow> int \<Rightarrow> nat \<Rightarrow> nat list \<Rightarrow> string \<times> nat \<Rightarrow> ctl \<times> string \<times> nat" where
  "extract_rows h img start_bit len w [] st = (Continue, st)"
| "extract_rows h img start_bit len w (i # is) st =
     (case extract_cols h img start_bit len i [0 ..< w] st of
        (Continue, st') \<Rightarrow> extract_rows h img start_bit len w is st'
      | (c, st') \<Rightarrow> (c, st'))"

definition extract_bits :: "heap \<Rightarrow> addr \<Rightarrow> int \<Rightarrow> int \<Rightarrow> string" where
  "extract_bits h stego_image start_bit len =
     (let (height, width) = shape h stego_image
      in case extract_rows h stego_image start_bit len width [0 ..< height] ([], 0) of
           (_, bits, _) \<Rightarrow> bits)"

subsection \<open>The encoder object\<close>

text \<open>The field \<open>image\<close> is called \<open>image_arr\<close> here.\<close>

record encoder =
  image_arr :: addr
  stego_image :: "addr option"
  encoded_bits :: "string option"

text \<open>
  The statistics returned by \<open>encode_message\<close>, without the two entries computed in
  floating point (\<open>bit_density\<close> and the text \<open>capacity_used\<close>; its division by
  \<open>capacity\<close> is reached only when \<open>1 \<le> required \<le> capacity\<close>).
\<close>

record stats =
  message_length :: nat
  encoded_bits_count :: nat
  valid_gzr :: bool
  pattern_111_count :: nat

definition get_capacity :: "heap \<Rightarrow> encoder \<Rightarrow> nat" where
  "get_capacity h self =
     (let (height, width) = shape h (image_arr self);
          capacity_bits = height * width;
          capacity_bytes = capacity_bits div 8
      in capacity_bytes)"

text \<open>\<open>format(n, '032b')\<close>: binary digits, most significant first, at least 32 of them.\<close>

fun bin_digits :: "nat \<Rightarrow> string" where
  "bin_digits n =
     (if n < 2 then [if n = 0 then CHR ''0'' else CHR ''1'']
      else bin_digits (n div 2) @ [if n mod 2 = 0 then CHR ''0'' else CHR ''1''])"

declare bin_digits.simps [simp del]

definition format_032b :: "nat \<Rightarrow> string" where
  "format_032b n = (let s = bin_digits n in replicate (32 - length s) (CHR ''0'') @ s)"

text \<open>
  \<open>encode_message(self, message, output_path=None)\<close> without printing and without
  writing the file: the statistics or the exception, the store and the object afterwards.
\<close>

definition encode_message ::
  "heap \<Rightarrow> encoder \<Rightarrow> pystr \<Rightarrow> ((error + stats) \<times> heap \<times> encoder) option" where
  "encode_message h self message =
     do {
       enc \<leftarrow> text_to_gzr message;
       let self1 = self\<lparr>encoded_bits := Some enc\<rparr>;
       let capacity = get_capacity h self1;
       let required = length enc div 8 + 1;
       if required > capacity then Some (Inl (MessageTooLarge required capacity), h, self1)
       else
         let (valid, count_111) = verify_no_111_pattern enc;
             length_bits = format_032b (length enc);
             full_bits = length_bits @ enc
         in case embed_bits h (image_arr self1) full_bits of
              (Inl e, h') \<Rightarrow> Some (Inl e, h', self1)
            | (Inr stego, h') \<Rightarrow>
                Some (Inr \<lparr>message_length = length message,
                           encoded_bits_count = length enc,
                           valid_gzr = valid,
                           pattern_111_count = count_111\<rparr>,
                      h', self1\<lparr>stego_image := Some stego\<rparr>)
     }"

section \<open>The invariant of the growth loop\<close>

definition trib_inv :: "int list \<Rightarrow> bool" where
  "trib_inv xs \<longleftrightarrow>
     3 \<le> length xs \<and> (\<forall>x\<in>set xs. 0 < x \<and> x \<le> last xs) \<and> sorted_wrt (<) xs"

section \<open>Auxiliary notions for the proofs\<close>

text \<open>
  The digits \<open>decimal_to_gzr\<close> has after the left-strip, for a positive \<open>n\<close> and a given
  sequence.
\<close>

definition gzr_digits :: "int \<Rightarrow> int list \<Rightarrow> string" where
  "gzr_digits n seq = lstrip_zeros (rev (fst (fold greedy_step (rev seq) ([], n))))"

text \<open>The weights for the threshold 255, as \<open>generate_tribonacci 255\<close> returns them.\<close>

definition seq255 :: "int list" where
  "seq255 = [1, 2, 4, 7, 13, 24, 44, 81, 149]"

text \<open>The check of one value for the finite enumerations over \<open>[1, 255]\<close> and \<open>[0, 255]\<close>.\<close>

definition no_111_at :: "int \<Rightarrow> bool" where
  "no_111_at n =
     (case decimal_to_gzr n (Some seq255) of
        Some d \<Rightarrow> verify_no_111_pattern d = (True, 0)
      | None \<Rightarrow> False)"

definition slot_decodes_at :: "int \<Rightarrow> bool" where
  "slot_decodes_at n =
     (case decimal_to_gzr n (Some seq255) of
        Some g \<Rightarrow> length (zfill 9 g) = 9 \<and> gzr_to_decimal (zfill 9 g) (Some seq255) = Some n
      | None \<Rightarrow> False)"

text \<open>
  Left-padding as the specification words it: zeros are prepended at the front of the
  string until it is \<open>w\<close> digits long.
\<close>

definition left_pad :: "nat \<Rightarrow> string \<Rightarrow> string" where
  "left_pad w s = replicate (w - length s) (CHR ''0'') @ s"

text \<open>The string \<open>decimal_to_gzr\<close> returns for a given sequence, and the slot made of it.\<close>

definition gzr_of :: "int list \<Rightarrow> int \<Rightarrow> string" where
  "gzr_of seq n =
     (if n \<le> 0 then ''0'' else if gzr_digits n seq \<noteq> [] then gzr_digits n seq else ''0'')"

definition slot_of :: "int list \<Rightarrow> int \<Rightarrow> string" where
  "slot_of seq n = zfill 9 (gzr_of seq n)"

text \<open>A bit string: only the digits \<open>'0'\<close> and \<open>'1'\<close>.\<close>

definition bitstring :: "string \<Rightarrow> bool" where
  "bitstring s \<longleftrightarrow> set s \<subseteq> {CHR ''0'', CHR ''1''}"

text \<open>
  The value one turn of the embedding loop stores for the pixel \<open>p\<close> and the digit \<open>c\<close>,
  and the buffer after the first \<open>n\<close> scan positions have been written.
\<close>

definition put_lsb :: "8 word \<Rightarrow> char \<Rightarrow> 8 word" where
  "put_lsb p c = word_of_int ((uint p AND 0xFE) OR int (the (int_of_char c)))"

definition emb_cells :: "string \<Rightarrow> 8 word list \<Rightarrow> nat \<Rightarrow> 8 word list" where
  "emb_cells bits cs n =
     map (\<lambda>k. if k < n then put_lsb (cs ! k) (bits ! k) else cs ! k) [0 ..< length cs]"

definition emb_array :: "string \<Rightarrow> ndarray \<Rightarrow> nat \<Rightarrow> ndarray" where
  "emb_array bits a n = a\<lparr>cells := emb_cells bits (cells a) n\<rparr>"

section \<open>Properties of the weight sequence\<close>

lemma trib_inv_seed: "trib_inv [1, 2, 4]"
  by (simp add: trib_inv_def)

lemma trib_inv_next_gt:
  assumes "trib_inv xs"
  shows "last xs < last xs + xs ! (length xs - 2) + xs ! (length xs - 3)"
proof -
  from assms have len: "3 \<le> length xs" and pos: "\<forall>x\<in>set xs. 0 < x"
    by (auto simp: trib_inv_def)
  from len have "xs ! (length xs - 2) \<in> set xs" "xs ! (length xs - 3) \<in> set xs"
    by (auto intro!: nth_mem)
  with pos have "0 < xs ! (length xs - 2)" "0 < xs ! (length xs - 3)" by blast+
  then show ?thesis by linarith
qed

lemma trib_inv_append:
  assumes "trib_inv xs" and "last xs < y"
  shows "trib_inv (xs @ [y])"
proof -
  from assms(1) have len: "3 \<le> length xs"
    and bnd: "\<forall>x\<in>set xs. 0 < x \<and> x \<le> last xs"
    and srt: "sorted_wrt (<) xs"
    by (simp_all add: trib_inv_def)
  from len have ne: "xs \<noteq> []" by auto
  then have "last xs \<in> set xs" by simp
  with bnd have "0 < last xs" by blast
  with assms(2) have ypos: "0 < y" by linarith
  have below: "\<forall>x\<in>set xs. x < y" using bnd assms(2) by fastforce
  have "sorted_wrt (<) (xs @ [y])" using srt below by (simp add: sorted_wrt_append)
  moreover have "\<forall>x\<in>set (xs @ [y]). 0 < x \<and> x \<le> last (xs @ [y])"
    using bnd below ypos by fastforce
  moreover have "3 \<le> length (xs @ [y])" using len by simp
  ultimately show ?thesis by (simp add: trib_inv_def)
qed

text \<open>
  Started on a list that satisfies the invariant, the growth loop returns: the distance
  from the last term to the bound shrinks with every appended term.
\<close>

lemma trib_loop_total:
  "trib_inv xs \<Longrightarrow> \<exists>ys. trib_loop m xs = Some (xs @ ys) \<and> trib_inv (xs @ ys)"
proof (induction "nat (m - last xs)" arbitrary: xs rule: less_induct)
  case less
  let ?nx = "last xs + xs ! (length xs - 2) + xs ! (length xs - 3)"
  have gt: "last xs < ?nx" by (rule trib_inv_next_gt [OF less.prems])
  show ?case
  proof (cases "last xs < m \<and> \<not> m < ?nx")
    case False
    then have "trib_loop m xs = Some xs"
      by (subst trib_loop.simps) (auto simp: Let_def)
    with less.prems show ?thesis by auto
  next
    case True
    then have unfold: "trib_loop m xs = trib_loop m (xs @ [?nx])"
      by (subst trib_loop.simps) (simp add: Let_def)
    have inv': "trib_inv (xs @ [?nx])" by (rule trib_inv_append [OF less.prems gt])
    have "nat (m - last (xs @ [?nx])) < nat (m - last xs)" using True gt by simp
    from less.hyps [OF this inv'] obtain ys where
      "trib_loop m (xs @ [?nx]) = Some ((xs @ [?nx]) @ ys)" "trib_inv ((xs @ [?nx]) @ ys)"
      by blast
    with unfold show ?thesis by (intro exI [of _ "?nx # ys"]) simp
  qed
qed

lemma generate_tribonacci_255:
  "generate_tribonacci 255 = Some [1, 2, 4, 7, 13, 24, 44, 81, 149]"
  by (simp add: generate_tribonacci_def trib_loop.simps)

text \<open>
  C5, as the code has it: below 1 the guard \<open>if max_value < 1: return []\<close> answers with
  the empty sequence; from 1 on, the result begins with the seed \<open>[1, 2, 4]\<close>.
\<close>

theorem generate_tribonacci_seed:
  "(t < 1 \<longrightarrow> generate_tribonacci t = Some []) \<and>
   (1 \<le> t \<longrightarrow> (\<exists>rest. generate_tribonacci t = Some ([1, 2, 4] @ rest)))"
  using trib_loop_total [OF trib_inv_seed, of t]
  by (auto simp: generate_tribonacci_def)

theorem generate_tribonacci_seed_witness:
  "((0::int) < 1 \<and> generate_tribonacci 0 = Some []) \<and>
   ((1::int) \<le> 255 \<and> (\<exists>rest. generate_tribonacci 255 = Some ([1, 2, 4] @ rest)))"
  using generate_tribonacci_seed [of 0] generate_tribonacci_seed [of 255] by simp

text \<open>
  C5 as stated fails: for the threshold 0, which is below 1, the result does not begin
  with the seed.
\<close>

theorem generate_tribonacci_below_one_counterexample:
  "\<not> (\<exists>rest. generate_tribonacci 0 = Some ([1, 2, 4] @ rest))"
  by (simp add: generate_tribonacci_def)

text \<open>
  C6: for every threshold of at least 1, \<open>generate_tribonacci\<close> returns, and the
  sequence it returns is not empty and strictly increasing.
\<close>

theorem generate_tribonacci_increasing:
  "1 \<le> t \<Longrightarrow> \<exists>seq. generate_tribonacci t = Some seq \<and> seq \<noteq> [] \<and> sorted_wrt (<) seq"
  using trib_loop_total [OF trib_inv_seed, of t]
  by (auto simp: generate_tribonacci_def trib_inv_def)

theorem generate_tribonacci_increasing_witness:
  "(1::int) \<le> 255 \<and>
   (\<exists>seq. generate_tribonacci 255 = Some seq \<and> seq \<noteq> [] \<and> sorted_wrt (<) seq)"
  using generate_tribonacci_increasing [of 255] by simp

section \<open>Properties of the integer codec\<close>

lemma fold_greedy_step_length:
  "length (fst (fold greedy_step ts (bits, r))) = length bits + length ts"
  by (induction ts arbitrary: bits r) (simp_all add: greedy_step_def)

lemma fold_greedy_step_set:
  "set (fst (fold greedy_step ts (bits, r))) \<subseteq> set bits \<union> {CHR ''0'', CHR ''1''}"
proof (induction ts arbitrary: bits r)
  case Nil
  show ?case by auto
next
  case (Cons t ts)
  show ?case
  proof (cases "t \<le> r")
    case True
    then show ?thesis using Cons [of "bits @ ''1''" "r - t"] by (auto simp: greedy_step_def)
  next
    case False
    then show ?thesis using Cons [of "bits @ ''0''" r] by (auto simp: greedy_step_def)
  qed
qed

lemma lstrip_zeros_subset: "set (lstrip_zeros s) \<subseteq> set s"
  unfolding lstrip_zeros_def by (rule set_dropWhileD [THEN subsetI])

lemma lstrip_zeros_hd: "lstrip_zeros s \<noteq> [] \<Longrightarrow> hd (lstrip_zeros s) \<noteq> CHR ''0''"
  unfolding lstrip_zeros_def by (rule hd_dropWhile)

lemma lstrip_zeros_length: "length (lstrip_zeros s) \<le> length s"
  unfolding lstrip_zeros_def by (rule length_dropWhile_le)

lemma decimal_to_gzr_Some:
  "decimal_to_gzr n (Some seq) =
     Some (if n \<le> 0 then ''0'' else if gzr_digits n seq \<noteq> [] then gzr_digits n seq else ''0'')"
  by (simp add: decimal_to_gzr_def gzr_digits_def split: prod.splits)

lemma gzr_digits_props:
  "set (gzr_digits n seq) \<subseteq> {CHR ''0'', CHR ''1''}"
  "length (gzr_digits n seq) \<le> length seq"
  "gzr_digits n seq \<noteq> [] \<Longrightarrow> hd (gzr_digits n seq) = CHR ''1''"
proof -
  let ?b = "fst (fold greedy_step (rev seq) ([], n))"
  have b: "set ?b \<subseteq> {CHR ''0'', CHR ''1''}" "length ?b = length seq"
    using fold_greedy_step_set [of "rev seq" "[]" n] fold_greedy_step_length [of "rev seq" "[]" n]
    by auto
  show sub: "set (gzr_digits n seq) \<subseteq> {CHR ''0'', CHR ''1''}"
    using lstrip_zeros_subset [of "rev ?b"] b(1) by (auto simp: gzr_digits_def)
  show "length (gzr_digits n seq) \<le> length seq"
    using lstrip_zeros_length [of "rev ?b"] b(2) by (simp add: gzr_digits_def)
  assume ne: "gzr_digits n seq \<noteq> []"
  then have "hd (gzr_digits n seq) \<in> set (gzr_digits n seq)" by simp
  moreover have "hd (gzr_digits n seq) \<noteq> CHR ''0''"
    using ne lstrip_zeros_hd [of "rev ?b"] by (simp add: gzr_digits_def)
  ultimately show "hd (gzr_digits n seq) = CHR ''1''" using sub by auto
qed

lemma decimal_to_gzr_seq_shape:
  "\<exists>r. decimal_to_gzr n (Some seq) = Some r \<and> r \<noteq> [] \<and> set r \<subseteq> {CHR ''0'', CHR ''1''}
       \<and> (r = ''0'' \<or> hd r = CHR ''1'') \<and> length r \<le> max 1 (length seq)"
  using gzr_digits_props [of n seq]
  by (auto simp: decimal_to_gzr_Some)

text \<open>
  C10: for every integer and every weight sequence (also the default one),
  \<open>decimal_to_gzr\<close> returns a string that is not empty, has only the digits \<open>'0'\<close>
  and \<open>'1'\<close>, and is \<open>"0"\<close> or begins with \<open>'1'\<close>.
\<close>

theorem decimal_to_gzr_shape:
  "\<exists>r. decimal_to_gzr n tribonacci_seq = Some r \<and> r \<noteq> [] \<and> set r \<subseteq> {CHR ''0'', CHR ''1''}
       \<and> (r = ''0'' \<or> hd r = CHR ''1'')"
proof (cases tribonacci_seq)
  case (Some seq)
  then show ?thesis using decimal_to_gzr_seq_shape [of n seq] by blast
next
  case None
  show ?thesis
  proof (cases "n \<le> 0")
    case True
    then show ?thesis by (simp add: decimal_to_gzr_def)
  next
    case False
    then have "1 \<le> n" by simp
    with trib_loop_total [OF trib_inv_seed, of n]
    obtain seq where g: "generate_tribonacci n = Some seq"
      by (auto simp: generate_tribonacci_def)
    have "decimal_to_gzr n None = decimal_to_gzr n (Some seq)"
      using False g by (simp add: decimal_to_gzr_def)
    with None show ?thesis using decimal_to_gzr_seq_shape [of n seq] by auto
  qed
qed

text \<open>
  C1 at \<open>n = 2\<close> with the sequence for the threshold 255: the greedy digits are
  \<open>"010000000"\<close>, the left-strip removes the digit of weight 1, and the remaining string
  \<open>"10000000"\<close> decodes to 1, not to 2.
\<close>

theorem decimal_to_gzr_roundtrip_fails_at_2:
  "\<exists>seq. generate_tribonacci 255 = Some seq \<and>
     decimal_to_gzr 2 (Some seq) = Some ''10000000'' \<and>
     gzr_to_decimal ''10000000'' (Some seq) = Some 1"
  by (simp add: generate_tribonacci_255 decimal_to_gzr_def gzr_to_decimal_def greedy_step_def
      lstrip_zeros_def add_weight_def enumerate_eq_zip upt_rec)

lemma count_111_zero_no_substring:
  "count_111 s = 0 \<Longrightarrow> \<not> (\<exists>u v. s = u @ ''111'' @ v)"
proof (induction s rule: count_111.induct)
  case (1 a b c rest)
  show ?case
  proof
    assume "\<exists>u v. a # b # c # rest = u @ ''111'' @ v"
    then obtain u v where eq: "a # b # c # rest = u @ ''111'' @ v" by blast
    show False
    proof (cases u)
      case Nil
      with eq have "a = CHR ''1'' \<and> b = CHR ''1'' \<and> c = CHR ''1''" by simp
      with "1.prems" show False by simp
    next
      case (Cons x u')
      with eq have tl: "b # c # rest = u' @ ''111'' @ v" by simp
      have "\<not> (a = CHR ''1'' \<and> b = CHR ''1'' \<and> c = CHR ''1'')"
        using "1.prems" by auto
      with "1.prems" "1.IH"(2) have "\<not> (\<exists>u v. b # c # rest = u @ ''111'' @ v)"
        by (simp split: if_splits)
      with tl show False by blast
    qed
  qed
qed (auto simp: append_eq_Cons_conv)

lemma generate_tribonacci_255_seq255: "generate_tribonacci 255 = Some seq255"
  by (simp add: generate_tribonacci_255 seq255_def)

lemma all_no_111: "list_all no_111_at [1..255]"
  by code_simp

lemma all_slots_decode: "list_all slot_decodes_at [0..255]"
  by code_simp

text \<open>
  C4: for every \<open>n\<close> from 1 to 255, the string \<open>decimal_to_gzr\<close> returns for the
  sequence of the threshold 255 has no substring \<open>"111"\<close>, and \<open>verify_no_111_pattern\<close>
  answers \<open>(True, 0)\<close> on it.
\<close>

theorem decimal_to_gzr_no_111:
  assumes "1 \<le> n" and "n \<le> 255"
  shows "\<exists>seq d. generate_tribonacci 255 = Some seq \<and> decimal_to_gzr n (Some seq) = Some d \<and>
           \<not> (\<exists>u v. d = u @ ''111'' @ v) \<and> verify_no_111_pattern d = (True, 0)"
proof -
  from assms have "n \<in> set [1..255]" by simp
  with all_no_111 have "no_111_at n" by (simp only: list_all_iff)
  then obtain d where d: "decimal_to_gzr n (Some seq255) = Some d"
    and v: "verify_no_111_pattern d = (True, 0)"
    by (auto simp: no_111_at_def split: option.splits)
  from v have "count_111 d = 0" by (simp add: verify_no_111_pattern_def Let_def)
  then have "\<not> (\<exists>u v. d = u @ ''111'' @ v)" by (rule count_111_zero_no_substring)
  with d v generate_tribonacci_255_seq255 show ?thesis by blast
qed

theorem decimal_to_gzr_no_111_witness:
  "(1::int) \<le> 65 \<and> (65::int) \<le> 255 \<and>
   (\<exists>seq d. generate_tribonacci 255 = Some seq \<and> decimal_to_gzr 65 (Some seq) = Some d \<and>
           \<not> (\<exists>u v. d = u @ ''111'' @ v) \<and> verify_no_111_pattern d = (True, 0))"
  using decimal_to_gzr_no_111 [of 65] by simp

section \<open>Properties of the text codec\<close>

lemma decimal_to_gzr_gzr_of: "decimal_to_gzr n (Some seq) = Some (gzr_of seq n)"
  by (simp add: decimal_to_gzr_Some gzr_of_def)

lemma gzr_of_props:
  "gzr_of seq n \<noteq> []"
  "set (gzr_of seq n) \<subseteq> {CHR ''0'', CHR ''1''}"
  "length (gzr_of seq n) \<le> max 1 (length seq)"
  using decimal_to_gzr_seq_shape [of n seq] by (auto simp: decimal_to_gzr_gzr_of)

lemma zfill_digits:
  assumes "s \<noteq> []" and "set s \<subseteq> {CHR ''0'', CHR ''1''}"
  shows "zfill w s = left_pad w s"
proof (cases s)
  case Nil
  with assms(1) show ?thesis by simp
next
  case (Cons c cs)
  with assms(2) have "c \<noteq> CHR ''+''" "c \<noteq> CHR ''-''" by auto
  with Cons show ?thesis by (simp add: zfill_def left_pad_def)
qed

lemma left_pad_length: "length s \<le> w \<Longrightarrow> length (left_pad w s) = w"
  by (simp add: left_pad_def)

lemma slot_of_left_pad: "slot_of seq n = left_pad 9 (gzr_of seq n)"
  unfolding slot_of_def by (rule zfill_digits) (rule gzr_of_props)+

lemma slot_of_seq255_length: "length (slot_of seq255 n) = 9"
proof -
  have "length (gzr_of seq255 n) \<le> 9"
    using gzr_of_props(3) [of seq255 n] by (simp add: seq255_def)
  then show ?thesis by (simp add: slot_of_left_pad left_pad_length)
qed

lemma text_to_gzr_loop_map:
  "text_to_gzr_loop seq txt acc = Some (acc @ map (slot_of seq) txt)"
  by (induction "txt" arbitrary: acc) (simp_all add: decimal_to_gzr_gzr_of slot_of_def)

lemma text_to_gzr_slots: "text_to_gzr txt = Some (concat (map (slot_of seq255) txt))"
  by (simp add: text_to_gzr_def generate_tribonacci_255_seq255 text_to_gzr_loop_map)

lemma length_concat_slots:
  "\<forall>s\<in>set slots. length s = 9 \<Longrightarrow> length (concat slots) = 9 * length slots"
  by (induction slots) simp_all

text \<open>
  C9: \<open>text_to_gzr\<close> returns the concatenation, in the order of the text, of one slot
  per character; each slot is the character's \<open>decimal_to_gzr\<close> string left-padded with
  \<open>'0'\<close> to 9 digits, so the result has 9 digits per character. This holds for every
  text, in particular for those over the code points 0 to 255.
\<close>

theorem text_to_gzr_is_slots:
  "\<exists>seq slots. generate_tribonacci 255 = Some seq \<and>
     text_to_gzr txt = Some (concat slots) \<and>
     length (concat slots) = 9 * length txt \<and>
     list_all2 (\<lambda>c s. \<exists>g. decimal_to_gzr c (Some seq) = Some g \<and> s = left_pad 9 g \<and> length s = 9)
       txt slots"
proof -
  let ?slots = "map (slot_of seq255) txt"
  have each: "list_all2 (\<lambda>c s. \<exists>g. decimal_to_gzr c (Some seq255) = Some g \<and> s = left_pad 9 g
                 \<and> length s = 9) txt ?slots"
    unfolding list_all2_map2
    by (rule list_all2_same [THEN iffD2]) 
       (auto simp: decimal_to_gzr_gzr_of slot_of_left_pad [symmetric] slot_of_seq255_length)
  have "length (concat ?slots) = 9 * length ?slots"
    by (rule length_concat_slots) (simp add: slot_of_seq255_length)
  with each text_to_gzr_slots [of "txt"] generate_tribonacci_255_seq255 show ?thesis
    by (intro exI [of _ seq255] exI [of _ ?slots]) simp
qed

lemma slot_of_decodes:
  assumes "0 \<le> c" and "c \<le> 255"
  shows "gzr_to_decimal (slot_of seq255 c) (Some seq255) = Some c"
proof -
  from assms have "c \<in> set [0..255]" by simp
  with all_slots_decode have "slot_decodes_at c" by (simp only: list_all_iff)
  then show ?thesis
    by (simp add: slot_decodes_at_def decimal_to_gzr_gzr_of slot_of_def)
qed

lemma py_range_chunks: "py_range 0 (9 * n) 9 = map (\<lambda>k. k * 9) [0 ..< n]"
proof -
  have "(9 * n + 8) div 9 = n" by simp
  then show ?thesis by (simp add: py_range_def)
qed

lemma chunk_nth:
  "\<forall>s\<in>set slots. length s = 9 \<Longrightarrow> k < length slots \<Longrightarrow>
     take 9 (drop (k * 9) (concat slots)) = slots ! k"
proof (induction slots arbitrary: k)
  case Nil
  then show ?case by simp
next
  case (Cons s slots)
  show ?case
  proof (cases k)
    case 0
    with Cons.prems show ?thesis by simp
  next
    case (Suc k')
    with Cons.prems have "take 9 (drop (k' * 9) (concat slots)) = slots ! k'"
      by (intro Cons.IH) simp_all
    with Suc Cons.prems show ?thesis by simp
  qed
qed

lemma gzr_to_text_loop_slots:
  assumes len: "\<forall>s\<in>set slots. length s = 9"
    and dec: "\<forall>k<length slots. gzr_to_decimal (slots ! k) (Some seq) = Some (vals ! k)"
  shows "\<forall>k\<in>set ks. k < length slots \<Longrightarrow>
     gzr_to_text_loop seq (concat slots) (map (\<lambda>k. k * 9) ks) chars =
       Some (chars @ filter (\<lambda>v. v > 0) (map (\<lambda>k. vals ! k) ks))"
proof (induction ks arbitrary: chars)
  case Nil
  show ?case by simp
next
  case (Cons k ks)
  from Cons.prems have k: "k < length slots" by simp
  have chunk: "take 9 (drop (k * 9) (concat slots)) = slots ! k"
    by (rule chunk_nth [OF len k])
  have l9: "length (slots ! k) = 9" using len k by simp
  have d: "gzr_to_decimal (slots ! k) (Some seq) = Some (vals ! k)" using dec k by simp
  have rest: "\<And>cs. gzr_to_text_loop seq (concat slots) (map (\<lambda>k. k * 9) ks) cs =
       Some (cs @ filter (\<lambda>v. v > 0) (map (\<lambda>k. vals ! k) ks))"
    using Cons.prems by (intro Cons.IH) simp
  show ?case by (simp add: chunk l9 d rest)
qed

text \<open>
  C2: for a text over the code points 0 to 255, \<open>gzr_to_text\<close> of \<open>text_to_gzr\<close> is
  the text without its characters of code point 0; for a text over 1 to 255 it is the
  text itself.
\<close>

theorem text_round_trip:
  assumes "\<forall>c\<in>set txt. 0 \<le> c \<and> c \<le> 255"
  shows "\<exists>bits. text_to_gzr txt = Some bits \<and>
           gzr_to_text bits = Some (filter (\<lambda>c. c \<noteq> 0) txt) \<and>
           ((\<forall>c\<in>set txt. 1 \<le> c) \<longrightarrow> gzr_to_text bits = Some txt)"
proof -
  let ?slots = "map (slot_of seq255) txt"
  let ?bits = "concat ?slots"
  have len: "\<forall>s\<in>set ?slots. length s = 9" by (simp add: slot_of_seq255_length)
  have dec: "\<forall>k<length ?slots. gzr_to_decimal (?slots ! k) (Some seq255) = Some (txt ! k)"
    using assms by (simp add: slot_of_decodes)
  have lb: "length ?bits = 9 * length txt"
    using length_concat_slots [OF len] by simp
  have "gzr_to_text_loop seq255 ?bits (map (\<lambda>k. k * 9) [0 ..< length txt]) [] =
          Some ([] @ filter (\<lambda>v. v > 0) (map (\<lambda>k. txt ! k) [0 ..< length txt]))"
    by (rule gzr_to_text_loop_slots [OF len dec]) simp
  then have "gzr_to_text ?bits = Some (filter (\<lambda>v. v > 0) txt)"
    by (simp add: gzr_to_text_def generate_tribonacci_255_seq255 lb py_range_chunks map_nth)
  moreover have "filter (\<lambda>v. v > 0) txt = filter (\<lambda>c. c \<noteq> 0) txt"
    using assms by (intro filter_cong) auto
  moreover have "(\<forall>c\<in>set txt. 1 \<le> c) \<longrightarrow> filter (\<lambda>c. c \<noteq> 0) txt = txt"
    by (auto simp: filter_id_conv)
  ultimately show ?thesis using text_to_gzr_slots [of "txt"] by auto
qed

theorem text_round_trip_witness:
  "(\<exists>bits. text_to_gzr [72, 0, 2, 255] = Some bits \<and> gzr_to_text bits = Some [72, 2, 255]) \<and>
   (\<exists>bits. text_to_gzr [72, 105] = Some bits \<and> gzr_to_text bits = Some [72, 105])"
  using text_round_trip [of "[72, 0, 2, 255]"] text_round_trip [of "[72, 105]"] by simp

section \<open>Properties of the pixel channel\<close>

lemma int_of_char_bit:
  "int_of_char (CHR ''0'') = Some 0" "int_of_char (CHR ''1'') = Some 1"
  by (simp_all add: int_of_char_def)


lemma scan_index_less: "i < h \<Longrightarrow> j < w \<Longrightarrow> i * w + j < h * (w::nat)"
proof -
  assume "i < h" "j < w"
  then have "i * w + j < Suc i * w" by simp
  also have "\<dots> \<le> h * w" using \<open>i < h\<close> by (intro mult_le_mono1) simp
  finally show ?thesis .
qed


lemma take_bit_uint8: "take_bit 8 (uint (p :: 8 word)) = uint p"
  using uint_bounded [of p] by (intro take_bit_int_eq_self) simp_all

lemma uint_put_lsb:
  assumes "c = CHR ''0'' \<or> c = CHR ''1''"
  shows "uint (put_lsb p c) = (uint p AND 0xFE) OR (if c = CHR ''1'' then 1 else 0)"
  using assms
  by (auto simp: put_lsb_def int_of_char_bit uint_word_of_int_eq take_bit_or take_bit_and
      take_bit_uint8)

lemma lsb_char_put_lsb:
  assumes "c = CHR ''0'' \<or> c = CHR ''1''"
  shows "lsb_char (put_lsb p c) = c"
proof -
  have "even (uint p AND 0xFE)" by (simp add: even_and_iff)
  then have "(uint p AND 0xFE) AND 1 = 0" "((uint p AND 0xFE) OR 1) AND 1 = 1"
    by (simp_all add: and_one_eq even_or_iff mod2_eq_if)
  then show ?thesis using assms uint_put_lsb [OF assms, of p]
    by (auto simp: lsb_char_def)
qed


lemma emb_cells_length: "length (emb_cells bits cs n) = length cs"
  by (simp add: emb_cells_def)

lemma emb_cells_nth:
  "k < length cs \<Longrightarrow>
     emb_cells bits cs n ! k = (if k < n then put_lsb (cs ! k) (bits ! k) else cs ! k)"
  by (simp add: emb_cells_def)

lemma emb_cells_step:
  "n < length cs \<Longrightarrow>
     (emb_cells bits cs n)[n := put_lsb (cs ! n) (bits ! n)] = emb_cells bits cs (Suc n)"
  by (auto simp: list_eq_iff_nth_eq emb_cells_length emb_cells_nth nth_list_update)

lemma emb_cells_0: "emb_cells bits cs 0 = cs"
  by (simp add: list_eq_iff_nth_eq emb_cells_length emb_cells_nth)

lemma getitem_last:
  "getitem (h0 @ [a]) (length h0) i j = cells a ! (i * width a + j)"
  by (simp add: getitem_def)

lemma setitem_last:
  "setitem (h0 @ [a]) (length h0) i j v = h0 @ [a\<lparr>cells := (cells a)[i * width a + j := v]\<rparr>]"
  by (simp add: setitem_def)

lemma bitstring_nth:
  "bitstring bits \<Longrightarrow> n < length bits \<Longrightarrow> bits ! n = CHR ''0'' \<or> bits ! n = CHR ''1''"
proof -
  assume "bitstring bits" and "n < length bits"
  then have "bits ! n \<in> {CHR ''0'', CHR ''1''}"
    unfolding bitstring_def using nth_mem [of n bits] by blast
  then show ?thesis by simp
qed

lemma embed_step:
  assumes wf: "wf_array a" and bin: "bitstring bits" and i: "i < height a" and j: "j < width a"
    and n: "n = i * width a + j" and nb: "n < length bits"
  shows "embed_cols bits (length h0) i (j # js) (h0 @ [emb_array bits a n], n) =
         embed_cols bits (length h0) i js (h0 @ [emb_array bits a (Suc n)], Suc n)"
proof -
  have nc: "n < length (cells a)"
    using wf i j n scan_index_less [of i "height a" j "width a"] by (simp add: wf_array_def)
  from bitstring_nth [OF bin nb] obtain b where b: "int_of_char (bits ! n) = Some b"
    by (auto simp: int_of_char_bit)
  have w: "width (emb_array bits a n) = width a" by (simp add: emb_array_def)
  have g: "getitem (h0 @ [emb_array bits a n]) (length h0) i j = cells a ! n"
    using nc n by (simp add: getitem_last w) (simp add: emb_array_def emb_cells_nth)
  have new: "word_of_int ((uint (cells a ! n) AND 0xFE) OR int b) = put_lsb (cells a ! n) (bits ! n)"
    by (simp add: put_lsb_def b)
  have s: "setitem (h0 @ [emb_array bits a n]) (length h0) i j (put_lsb (cells a ! n) (bits ! n))
           = h0 @ [emb_array bits a (Suc n)]"
    using nc n by (simp add: setitem_last w) (simp add: emb_array_def emb_cells_step)
  show ?thesis
    using nb by (simp add: b g new s del: put_lsb_def)
qed


lemma embed_cols_run:
  assumes wf: "wf_array a" and bin: "bitstring bits" and i: "i < height a"
  shows "j0 \<le> width a \<Longrightarrow> i * width a + j0 \<le> length bits \<Longrightarrow>
     \<exists>c n'. embed_cols bits (length h0) i [j0 ..< width a]
               (h0 @ [emb_array bits a (i * width a + j0)], i * width a + j0) =
             (c, h0 @ [emb_array bits a (min (length bits) (Suc i * width a))], n') \<and>
            (c = Returned \<and> length bits < Suc i * width a \<or>
             c = Continue \<and> n' = Suc i * width a \<and> n' \<le> length bits)"
proof (induction "width a - j0" arbitrary: j0)
  case 0
  then have "j0 = width a" by simp
  with "0.prems" show ?case by (simp add: min_absorb2 add.commute)
next
  case (Suc d)
  then have j: "j0 < width a" by simp
  let ?n = "i * width a + j0"
  have list: "[j0 ..< width a] = j0 # [Suc j0 ..< width a]"
    using j by (rule upt_conv_Cons)
  show ?case
  proof (cases "?n < length bits")
    case False
    with Suc.prems have eq: "length bits = ?n" by simp
    have "min (length bits) (Suc i * width a) = ?n" using eq j by simp
    moreover have "length bits < Suc i * width a" using eq j by simp
    ultimately show ?thesis using eq by (simp add: list)
  next
    case True
    have step: "embed_cols bits (length h0) i (j0 # [Suc j0 ..< width a])
                  (h0 @ [emb_array bits a ?n], ?n) =
                embed_cols bits (length h0) i [Suc j0 ..< width a]
                  (h0 @ [emb_array bits a (Suc ?n)], Suc ?n)"
      by (rule embed_step [OF wf bin i j refl True])
    have "d = width a - Suc j0" using Suc.hyps(2) by simp
    moreover have "Suc j0 \<le> width a" using j by simp
    moreover have "i * width a + Suc j0 \<le> length bits" using True by simp
    ultimately obtain c n' where
      "embed_cols bits (length h0) i [Suc j0 ..< width a]
         (h0 @ [emb_array bits a (i * width a + Suc j0)], i * width a + Suc j0) =
       (c, h0 @ [emb_array bits a (min (length bits) (Suc i * width a))], n')"
      "c = Returned \<and> length bits < Suc i * width a \<or>
       c = Continue \<and> n' = Suc i * width a \<and> n' \<le> length bits"
      using Suc.hyps(1) [of "Suc j0"] by blast
    with step show ?thesis by (simp add: list)
  qed
qed

lemma embed_rows_run:
  assumes wf: "wf_array a" and bin: "bitstring bits"
  shows "i0 \<le> height a \<Longrightarrow> i0 * width a \<le> length bits \<Longrightarrow>
     \<exists>c n'. embed_rows bits (length h0) (width a) [i0 ..< height a]
               (h0 @ [emb_array bits a (i0 * width a)], i0 * width a) =
             (c, h0 @ [emb_array bits a (min (length bits) (height a * width a))], n') \<and>
            (c = Returned \<or> c = Continue)"
proof (induction "height a - i0" arbitrary: i0)
  case 0
  then have "i0 = height a" by simp
  with "0.prems" show ?case by (simp add: min_absorb2)
next
  case (Suc d)
  then have i: "i0 < height a" by simp
  have list: "[i0 ..< height a] = i0 # [Suc i0 ..< height a]"
    using i by (rule upt_conv_Cons)
  from embed_cols_run [OF wf bin i, of 0 h0] Suc.prems obtain c n' where
    cols: "embed_cols bits (length h0) i0 [0 ..< width a]
             (h0 @ [emb_array bits a (i0 * width a)], i0 * width a) =
           (c, h0 @ [emb_array bits a (min (length bits) (Suc i0 * width a))], n')"
    and c: "c = Returned \<and> length bits < Suc i0 * width a \<or>
            c = Continue \<and> n' = Suc i0 * width a \<and> n' \<le> length bits"
    by auto
  from c show ?case
  proof
    assume r: "c = Returned \<and> length bits < Suc i0 * width a"
    have le: "Suc i0 * width a \<le> height a * width a"
      using i by (intro mult_le_mono1) simp
    with r have "min (length bits) (Suc i0 * width a) = min (length bits) (height a * width a)"
      by simp
    with cols r show ?thesis by (simp add: list)
  next
    assume k: "c = Continue \<and> n' = Suc i0 * width a \<and> n' \<le> length bits"
    then have m: "min (length bits) (Suc i0 * width a) = Suc i0 * width a" by simp
    have "d = height a - Suc i0" using Suc.hyps(2) by simp
    moreover have "Suc i0 \<le> height a" using i by simp
    moreover have "Suc i0 * width a \<le> length bits" using k by simp
    ultimately obtain c2 n2 where
      "embed_rows bits (length h0) (width a) [Suc i0 ..< height a]
         (h0 @ [emb_array bits a (Suc i0 * width a)], Suc i0 * width a) =
       (c2, h0 @ [emb_array bits a (min (length bits) (height a * width a))], n2)"
      "c2 = Returned \<or> c2 = Continue"
      using Suc.hyps(1) [of "Suc i0"] by blast
    with cols k m show ?thesis by (simp add: list)
  qed
qed


lemma emb_array_0: "emb_array bits a 0 = a"
  by (simp add: emb_array_def emb_cells_0)

lemma embed_bits_result:
  assumes wf: "wf_array (h ! img)" and bin: "bitstring bits"
  shows "embed_bits h img bits =
           (Inr (length h),
            h @ [emb_array bits (h ! img)
                   (min (length bits) (height (h ! img) * width (h ! img)))])"
proof -
  let ?a = "h ! img"
  from embed_rows_run [OF wf bin, of 0 h] obtain c n' where
    run: "embed_rows bits (length h) (width ?a) [0 ..< height ?a] (h @ [?a], 0) =
            (c, h @ [emb_array bits ?a (min (length bits) (height ?a * width ?a))], n')"
    and c: "c = Returned \<or> c = Continue"
    by (auto simp: emb_array_0)
  from c show ?thesis
    by (auto simp: embed_bits_def ndarray_copy_def shape_def run)
qed

lemma extract_step_stop:
  "L \<le> n \<Longrightarrow> extract_cols h a 0 (int L) i (j # js) (bits, n) = (Returned, bits, Suc n)"
  by (simp add: Let_def)

lemma extract_step_last:
  "Suc n = L \<Longrightarrow> extract_cols h a 0 (int L) i (j # js) (bits, n) =
     (Returned, bits @ [lsb_char (getitem h a i j)], Suc n)"
  by (auto simp: Let_def)

lemma extract_step_more:
  "Suc n < L \<Longrightarrow> extract_cols h a 0 (int L) i (j # js) (bits, n) =
     extract_cols h a 0 (int L) i js (bits @ [lsb_char (getitem h a i j)], Suc n)"
  by (auto simp: Let_def)

lemma extract_cols_run:
  assumes wf: "wf_array (h ! a)" and i: "i < height (h ! a)"
  shows "j0 \<le> width (h ! a) \<Longrightarrow> i * width (h ! a) + j0 \<le> L \<Longrightarrow>
     \<exists>c n'. extract_cols h a 0 (int L) i [j0 ..< width (h ! a)]
               (map lsb_char (take (i * width (h ! a) + j0) (cells (h ! a))),
                i * width (h ! a) + j0) =
             (c, map lsb_char (take (min L (Suc i * width (h ! a))) (cells (h ! a))), n') \<and>
            (c = Returned \<and> L \<le> Suc i * width (h ! a) \<or>
             c = Continue \<and> n' = Suc i * width (h ! a) \<and> n' \<le> L)"
proof (induction "width (h ! a) - j0" arbitrary: j0)
  case 0
  then have "j0 = width (h ! a)" by simp
  with "0.prems" show ?case by (simp add: min_absorb2 add.commute)
next
  case (Suc d)
  let ?w = "width (h ! a)" and ?cs = "cells (h ! a)"
  let ?n = "i * ?w + j0"
  let ?bits = "map lsb_char (take ?n ?cs)"
  from Suc have j: "j0 < ?w" by simp
  have list: "[j0 ..< ?w] = j0 # [Suc j0 ..< ?w]"
    using j by (rule upt_conv_Cons)
  have nc: "?n < length ?cs"
    using wf i j scan_index_less [of i "height (h ! a)" j0 ?w] by (simp add: wf_array_def)
  have g: "getitem h a i j0 = ?cs ! ?n" by (simp add: getitem_def)
  have app: "?bits @ [lsb_char (getitem h a i j0)] = map lsb_char (take (Suc ?n) ?cs)"
    using nc by (simp add: g take_Suc_conv_app_nth)
  have below: "Suc ?n \<le> Suc i * ?w" using j by simp
  consider (stop_here) "L \<le> ?n" | (last_bit) "Suc ?n = L" | (more) "Suc ?n < L"
    by linarith
  then show ?case
  proof cases
    case stop_here
    have e: "extract_cols h a 0 (int L) i (j0 # [Suc j0 ..< ?w]) (?bits, ?n) =
               (Returned, ?bits, Suc ?n)"
      by (rule extract_step_stop [OF stop_here])
    have "min L (Suc i * ?w) = ?n" using stop_here Suc.prems(2) below by linarith
    moreover have "L \<le> Suc i * ?w" using stop_here below by linarith
    ultimately show ?thesis unfolding list e by simp
  next
    case last_bit
    have e: "extract_cols h a 0 (int L) i (j0 # [Suc j0 ..< ?w]) (?bits, ?n) =
               (Returned, ?bits @ [lsb_char (getitem h a i j0)], Suc ?n)"
      by (rule extract_step_last [OF last_bit])
    have "min L (Suc i * ?w) = Suc ?n" using last_bit below by linarith
    moreover have "L \<le> Suc i * ?w" using last_bit below by linarith
    ultimately show ?thesis unfolding list e app by simp
  next
    case more
    have e: "extract_cols h a 0 (int L) i (j0 # [Suc j0 ..< ?w]) (?bits, ?n) =
               extract_cols h a 0 (int L) i [Suc j0 ..< ?w]
                 (?bits @ [lsb_char (getitem h a i j0)], Suc ?n)"
      by (rule extract_step_more [OF more])
    have "d = ?w - Suc j0" using Suc.hyps(2) by simp
    moreover have "Suc j0 \<le> ?w" using j by simp
    moreover have "i * ?w + Suc j0 \<le> L" using more by simp
    ultimately obtain c n' where
      "extract_cols h a 0 (int L) i [Suc j0 ..< ?w]
         (map lsb_char (take (i * ?w + Suc j0) ?cs), i * ?w + Suc j0) =
       (c, map lsb_char (take (min L (Suc i * ?w)) ?cs), n')"
      "c = Returned \<and> L \<le> Suc i * ?w \<or> c = Continue \<and> n' = Suc i * ?w \<and> n' \<le> L"
      using Suc.hyps(1) [of "Suc j0"] by blast
    then show ?thesis unfolding list e app by simp
  qed
qed


lemma extract_rows_run:
  assumes wf: "wf_array (h ! a)"
  shows "i0 \<le> height (h ! a) \<Longrightarrow> i0 * width (h ! a) \<le> L \<Longrightarrow>
     \<exists>c n'. extract_rows h a 0 (int L) (width (h ! a)) [i0 ..< height (h ! a)]
               (map lsb_char (take (i0 * width (h ! a)) (cells (h ! a))), i0 * width (h ! a)) =
             (c, map lsb_char (take (min L (height (h ! a) * width (h ! a))) (cells (h ! a))), n')"
proof (induction "height (h ! a) - i0" arbitrary: i0)
  case 0
  then have "i0 = height (h ! a)" by simp
  with "0.prems" show ?case by (simp add: min_absorb2)
next
  case (Suc d)
  let ?w = "width (h ! a)" and ?ht = "height (h ! a)" and ?cs = "cells (h ! a)"
  from Suc have i: "i0 < ?ht" by simp
  have list: "[i0 ..< ?ht] = i0 # [Suc i0 ..< ?ht]"
    using i by (rule upt_conv_Cons)
  from extract_cols_run [OF wf i, of 0 L] Suc.prems obtain c n' where
    cols: "extract_cols h a 0 (int L) i0 [0 ..< ?w] (map lsb_char (take (i0 * ?w) ?cs), i0 * ?w) =
           (c, map lsb_char (take (min L (Suc i0 * ?w)) ?cs), n')"
    and c: "c = Returned \<and> L \<le> Suc i0 * ?w \<or> c = Continue \<and> n' = Suc i0 * ?w \<and> n' \<le> L"
    by auto
  have le: "Suc i0 * ?w \<le> ?ht * ?w"
    using i by (intro mult_le_mono1) simp
  from c show ?case
  proof
    assume r: "c = Returned \<and> L \<le> Suc i0 * ?w"
    with le have "min L (Suc i0 * ?w) = min L (?ht * ?w)" by simp
    with cols r show ?thesis unfolding list by simp
  next
    assume k: "c = Continue \<and> n' = Suc i0 * ?w \<and> n' \<le> L"
    then have m: "min L (Suc i0 * ?w) = Suc i0 * ?w" by simp
    have "d = ?ht - Suc i0" using Suc.hyps(2) by simp
    moreover have "Suc i0 \<le> ?ht" using i by simp
    moreover have "Suc i0 * ?w \<le> L" using k by simp
    ultimately obtain c2 n2 where
      "extract_rows h a 0 (int L) ?w [Suc i0 ..< ?ht]
         (map lsb_char (take (Suc i0 * ?w) ?cs), Suc i0 * ?w) =
       (c2, map lsb_char (take (min L (?ht * ?w)) ?cs), n2)"
      using Suc.hyps(1) [of "Suc i0"] by blast
    with cols k m show ?thesis unfolding list by simp
  qed
qed

lemma extract_bits_prefix:
  assumes wf: "wf_array (h ! a)"
  shows "extract_bits h a 0 (int L) = map lsb_char (take L (cells (h ! a)))"
proof -
  from extract_rows_run [OF wf, of 0 L] obtain c n' where
    "extract_rows h a 0 (int L) (width (h ! a)) [0 ..< height (h ! a)] ([], 0) =
       (c, map lsb_char (take (min L (height (h ! a) * width (h ! a))) (cells (h ! a))), n')"
    by auto
  moreover have "take (min L (height (h ! a) * width (h ! a))) (cells (h ! a)) = take L (cells (h ! a))"
    using wf by (simp add: wf_array_def min_def)
  ultimately show ?thesis by (simp add: extract_bits_def shape_def)
qed

lemma scan_index_div_mod: "k < h * w \<Longrightarrow> (k div w) * w + k mod w = (k::nat)"
  by simp

text \<open>
  C8: for a bit string, \<open>_embed_bits\<close> does not raise, whatever the length of the
  string; it returns a new array of the same shape in which the pixel at the row-major
  scan index \<open>k\<close> holds \<open>(old AND 0xFE) OR bit k\<close> for every \<open>k\<close> below the length of
  the string and the old value for every other \<open>k\<close>; the arrays that existed before, the
  input among them, are as they were.
\<close>

theorem embed_bits_effect:
  assumes img: "img < length h" and wf: "wf_array (h ! img)" and bin: "bitstring bits"
  shows "\<exists>stego h'. embed_bits h img bits = (Inr stego, h') \<and>
           stego = length h \<and> length h' = Suc (length h) \<and>
           (\<forall>a<length h. h' ! a = h ! a) \<and> h' ! img = h ! img \<and>
           shape h' stego = shape h img \<and>
           (\<forall>k<height (h ! img) * width (h ! img).
              uint (getitem h' stego (k div width (h ! img)) (k mod width (h ! img))) =
                (if k < length bits
                 then (uint (getitem h img (k div width (h ! img)) (k mod width (h ! img))) AND 0xFE)
                        OR (if bits ! k = CHR ''1'' then 1 else 0)
                 else uint (getitem h img (k div width (h ! img)) (k mod width (h ! img)))))"
proof -
  let ?a = "h ! img"
  let ?m = "min (length bits) (height ?a * width ?a)"
  let ?h' = "h @ [emb_array bits ?a ?m]"
  have res: "embed_bits h img bits = (Inr (length h), ?h')"
    by (rule embed_bits_result [OF wf bin])
  have old: "\<forall>a<length h. ?h' ! a = h ! a" by (simp add: nth_append)
  have shp: "shape ?h' (length h) = shape h img"
    by (simp add: shape_def emb_array_def)
  have px: "uint (getitem ?h' (length h) (k div width ?a) (k mod width ?a)) =
        (if k < length bits
         then (uint (getitem h img (k div width ?a) (k mod width ?a)) AND 0xFE)
                OR (if bits ! k = CHR ''1'' then 1 else 0)
         else uint (getitem h img (k div width ?a) (k mod width ?a)))"
    if k: "k < height ?a * width ?a" for k
  proof -
    have kc: "k < length (cells ?a)" using wf k by (simp add: wf_array_def)
    have new: "getitem ?h' (length h) (k div width ?a) (k mod width ?a) =
                 emb_cells bits (cells ?a) ?m ! k"
      by (simp add: getitem_def emb_array_def)
    have orig: "getitem h img (k div width ?a) (k mod width ?a) = cells ?a ! k"
      by (simp add: getitem_def)
    show ?thesis
    proof (cases "k < length bits")
      case True
      with k have "k < ?m" by simp
      moreover have "bits ! k = CHR ''0'' \<or> bits ! k = CHR ''1''"
        by (rule bitstring_nth [OF bin True])
      ultimately show ?thesis
        using True kc by (simp only: new orig emb_cells_nth uint_put_lsb if_True)
    next
      case False
      then have "\<not> k < ?m" by simp
      then show ?thesis using False kc by (simp only: new orig emb_cells_nth if_False)
    qed
  qed
  from res old shp px img show ?thesis by (intro exI [of _ "length h"] exI [of _ ?h']) simp
qed


theorem embed_bits_effect_witness:
  "\<exists>h'. embed_bits [\<lparr>height = 2, width = 3, cells = [10, 11, 12, 13, 14, 255]\<rparr>] 0 ''1010''
           = (Inr 1, h') \<and>
        length h' = 2 \<and>
        h' ! 0 = \<lparr>height = 2, width = 3, cells = [10, 11, 12, 13, 14, 255]\<rparr> \<and>
        uint (getitem h' 1 0 0) = 11 \<and> uint (getitem h' 1 0 1) = 10 \<and>
        uint (getitem h' 1 1 2) = 255"
proof -
  let ?g = "\<lparr>height = 2, width = 3, cells = [10, 11, 12, 13, 14, 255 :: 8 word]\<rparr>"
  have a: "0 < length [?g]" by simp
  have b: "wf_array ([?g] ! 0)" by (simp add: wf_array_def)
  have c: "bitstring ''1010''" by (simp add: bitstring_def)
  from embed_bits_effect [OF a b c] obtain stego h' where
    r: "embed_bits [?g] 0 ''1010'' = (Inr stego, h')" "stego = 1" "length h' = 2" "h' ! 0 = ?g"
    and px: "\<forall>k<6. uint (getitem h' stego (k div 3) (k mod 3)) =
                (if k < 4
                 then (uint (getitem [?g] 0 (k div 3) (k mod 3)) AND 0xFE)
                        OR (if ''1010'' ! k = CHR ''1'' then 1 else 0)
                 else uint (getitem [?g] 0 (k div 3) (k mod 3)))"
    by auto
  from px [rule_format, of 0] have "uint (getitem h' stego 0 0) = 11"
    by (simp add: getitem_def)
  moreover from px [rule_format, of 1] have "uint (getitem h' stego 0 1) = 10"
    by (simp add: getitem_def)
  moreover from px [rule_format, of 5] have "uint (getitem h' stego 1 2) = 255"
    by (simp add: getitem_def)
  ultimately show ?thesis using r by auto
qed

lemma emb_array_wf: "wf_array a \<Longrightarrow> wf_array (emb_array bits a n)"
  by (simp add: wf_array_def emb_array_def emb_cells_length)

lemma lsb_embedded_prefix:
  assumes bin: "bitstring frame" and len: "length frame \<le> length cs"
  shows "map lsb_char (take (length frame) (emb_cells frame cs (length frame))) = frame"
proof (rule nth_equalityI)
  show "length (map lsb_char (take (length frame) (emb_cells frame cs (length frame)))) = length frame"
    using len by (simp add: emb_cells_length)
next
  fix k
  assume "k < length (map lsb_char (take (length frame) (emb_cells frame cs (length frame))))"
  then have k: "k < length frame" by simp
  with len have kc: "k < length cs" by simp
  have "bits_ok": "frame ! k = CHR ''0'' \<or> frame ! k = CHR ''1''"
    by (rule bitstring_nth [OF bin k])
  show "map lsb_char (take (length frame) (emb_cells frame cs (length frame))) ! k = frame ! k"
    using k kc len by (simp add: emb_cells_length emb_cells_nth lsb_char_put_lsb [OF bits_ok])
qed

text \<open>
  C3: for a frame of at most \<open>H * W\<close> bits, extracting as many bits as the frame has,
  from position 0 of the array that the embedding returns, gives the frame back.
\<close>

theorem embed_extract_round_trip:
  assumes img: "img < length h" and wf: "wf_array (h ! img)" and bin: "bitstring frame"
    and len: "length frame \<le> height (h ! img) * width (h ! img)"
  shows "\<exists>stego h'. embed_bits h img frame = (Inr stego, h') \<and>
           extract_bits h' stego 0 (int (length frame)) = frame"
proof -
  let ?a = "h ! img"
  let ?s = "emb_array frame ?a (length frame)"
  let ?h' = "h @ [?s]"
  have "min (length frame) (height ?a * width ?a) = length frame" using len by simp
  with embed_bits_result [OF wf bin]
  have res: "embed_bits h img frame = (Inr (length h), ?h')" by simp
  have wf': "wf_array (?h' ! length h)" using wf by (simp add: emb_array_wf)
  have lc: "length frame \<le> length (cells ?a)" using wf len by (simp add: wf_array_def)
  have "extract_bits ?h' (length h) 0 (int (length frame)) =
          map lsb_char (take (length frame) (cells (?h' ! length h)))"
    by (rule extract_bits_prefix [OF wf'])
  also have "\<dots> = map lsb_char (take (length frame) (emb_cells frame (cells ?a) (length frame)))"
    by (simp add: emb_array_def)
  also have "\<dots> = frame" by (rule lsb_embedded_prefix [OF bin lc])
  finally show ?thesis using res by blast
qed

theorem embed_extract_round_trip_witness:
  "\<exists>stego h'. embed_bits [\<lparr>height = 2, width = 3, cells = [10, 11, 12, 13, 14, 255]\<rparr>] 0 ''1010''
           = (Inr stego, h') \<and>
        extract_bits h' stego 0 4 = ''1010''"
proof -
  let ?g = "\<lparr>height = 2, width = 3, cells = [10, 11, 12, 13, 14, 255 :: 8 word]\<rparr>"
  have a: "0 < length [?g]" by simp
  have b: "wf_array ([?g] ! 0)" by (simp add: wf_array_def)
  have c: "bitstring ''1010''" by (simp add: bitstring_def)
  have d: "length ''1010'' \<le> height ([?g] ! 0) * width ([?g] ! 0)" by simp
  from embed_extract_round_trip [OF a b c d] show ?thesis by simp
qed

section \<open>Properties of the encoder\<close>

lemma bin_digits_bitstring: "bitstring (bin_digits n)"
proof (induction n rule: bin_digits.induct)
  case (1 n)
  show ?case
  proof (cases "n < 2")
    case True
    then show ?thesis by (subst bin_digits.simps) (simp add: bitstring_def)
  next
    case False
    with 1 have "bitstring (bin_digits (n div 2))" by simp
    with False show ?thesis by (subst bin_digits.simps) (simp add: bitstring_def)
  qed
qed

lemma bitstring_append: "bitstring (xs @ ys) \<longleftrightarrow> bitstring xs \<and> bitstring ys"
  by (simp add: bitstring_def)

lemma format_032b_bitstring: "bitstring (format_032b n)"
  using bin_digits_bitstring [of n]
  by (auto simp: format_032b_def Let_def bitstring_def)

lemma slot_of_bitstring: "bitstring (slot_of seq n)"
  using gzr_of_props(2) [of seq n]
  by (auto simp: slot_of_left_pad left_pad_def bitstring_def)

lemma concat_bitstring: "\<forall>s\<in>set ss. bitstring s \<Longrightarrow> bitstring (concat ss)"
  by (induction ss) (auto simp: bitstring_def)

lemma text_to_gzr_payload:
  "\<exists>payload. text_to_gzr message = Some payload \<and> bitstring payload \<and>
     length payload = 9 * length message"
proof -
  let ?slots = "map (slot_of seq255) message"
  have "bitstring (concat ?slots)" by (rule concat_bitstring) (simp add: slot_of_bitstring)
  moreover have "length (concat ?slots) = 9 * length ?slots"
    by (rule length_concat_slots) (simp add: slot_of_seq255_length)
  ultimately show ?thesis using text_to_gzr_slots [of message] by simp
qed

text \<open>
  C7: \<open>encode_message\<close> returns for every message, and it raises exactly when
  \<open>len(payload) // 8 + 1\<close> exceeds \<open>H * W // 8\<close>, where the payload is the GZR string
  without the 32-bit header. The exception is then the one of the capacity check, and
  the store is the one before the call: no array has been written, and the object still
  has its image and its stego image.
\<close>

theorem encode_message_capacity:
  assumes img: "image_arr self < length h" and wf: "wf_array (h ! image_arr self)"
  shows "\<exists>payload out h' self'.
           text_to_gzr message = Some payload \<and>
           encode_message h self message = Some (out, h', self') \<and>
           ((\<exists>e. out = Inl e) \<longleftrightarrow>
              length payload div 8 + 1
                > height (h ! image_arr self) * width (h ! image_arr self) div 8) \<and>
           (\<forall>e. out = Inl e \<longrightarrow>
              e = MessageTooLarge (length payload div 8 + 1)
                    (height (h ! image_arr self) * width (h ! image_arr self) div 8) \<and>
              h' = h \<and> image_arr self' = image_arr self \<and>
              stego_image self' = stego_image self)"
proof -
  let ?a = "h ! image_arr self"
  let ?cap = "height ?a * width ?a div 8"
  from text_to_gzr_payload [of message] obtain payload where
    p: "text_to_gzr message = Some payload" and bin: "bitstring payload"
    by blast
  let ?req = "length payload div 8 + 1"
  let ?self1 = "self\<lparr>encoded_bits := Some payload\<rparr>"
  have cap: "get_capacity h ?self1 = ?cap"
    by (simp add: get_capacity_def shape_def)
  show ?thesis
  proof (cases "?req > ?cap")
    case True
    then have "encode_message h self message = Some (Inl (MessageTooLarge ?req ?cap), h, ?self1)"
      by (simp add: encode_message_def p cap Let_def)
    with p True show ?thesis by simp
  next
    case False
    let ?full = "format_032b (length payload) @ payload"
    have "bitstring ?full" using bin by (simp add: bitstring_append format_032b_bitstring)
    from embed_bits_result [OF wf this] obtain h' where
      e: "embed_bits h (image_arr self) ?full = (Inr (length h), h')" by blast
    have "\<exists>st. encode_message h self message =
            Some (Inr st, h', ?self1\<lparr>stego_image := Some (length h)\<rparr>)"
      using False by (simp add: encode_message_def p cap Let_def e split: prod.splits)
    with p False show ?thesis by auto
  qed
qed


theorem encode_message_capacity_witness:
  "(\<exists>h' self'.
      encode_message [\<lparr>height = 2, width = 3, cells = [10, 11, 12, 13, 14, 255]\<rparr>]
        \<lparr>image_arr = 0, stego_image = None, encoded_bits = None\<rparr> [72]
        = Some (Inl (MessageTooLarge 2 0), h', self') \<and>
      h' = [\<lparr>height = 2, width = 3, cells = [10, 11, 12, 13, 14, 255]\<rparr>] \<and>
      stego_image self' = None) \<and>
   (\<exists>st h' self'.
      encode_message [\<lparr>height = 8, width = 8, cells = replicate 64 0\<rparr>]
        \<lparr>image_arr = 0, stego_image = None, encoded_bits = None\<rparr> [72]
        = Some (Inr st, h', self'))"
proof -
  let ?self = "\<lparr>image_arr = 0, stego_image = None, encoded_bits = None\<rparr>"
  let ?small = "\<lparr>height = 2, width = 3, cells = [10, 11, 12, 13, 14, 255 :: 8 word]\<rparr>"
  let ?large = "\<lparr>height = 8, width = 8, cells = replicate 64 (0 :: 8 word)\<rparr>"
  from text_to_gzr_payload [of "[72]"] obtain p where
    p: "text_to_gzr [72] = Some p" "length p = 9" by auto
  have a1: "image_arr ?self < length [?small]" by simp
  have b1: "wf_array ([?small] ! image_arr ?self)" by (simp add: wf_array_def)
  from encode_message_capacity [OF a1 b1, of "[72]"] p
  have first: "\<exists>h' self'. encode_message [?small] ?self [72]
                 = Some (Inl (MessageTooLarge 2 0), h', self') \<and>
               h' = [?small] \<and> stego_image self' = None"
    by auto
  have a2: "image_arr ?self < length [?large]" by simp
  have b2: "wf_array ([?large] ! image_arr ?self)" by (simp add: wf_array_def)
  from encode_message_capacity [OF a2 b2, of "[72]"] p
  obtain out h' self' where
    r: "encode_message [?large] ?self [72] = Some (out, h', self')" and no: "\<not> (\<exists>e. out = Inl e)"
    by auto
  from no obtain st where "out = Inr st" by (cases out) auto
  with r have second: "\<exists>st h' self'. encode_message [?large] ?self [72] = Some (Inr st, h', self')"
    by blast
  from first second show ?thesis by blast
qed


section \<open>The values decoded from a slot\<close>

text \<open>
  With the weights for the threshold 255, \<open>gzr_to_decimal\<close> returns a value between 0
  and 325, the sum of the nine weights.
\<close>

lemma sum_list_drop_Suc_le:
  assumes "\<forall>x\<in>set seq. (0::int) \<le> x"
  shows "sum_list (drop (Suc k) seq) \<le> sum_list (drop k seq)"
proof (cases "k < length seq")
  case True
  then have "drop k seq = seq ! k # drop (Suc k) seq" by (simp add: Cons_nth_drop_Suc)
  moreover have "0 \<le> seq ! k" using assms True by simp
  ultimately show ?thesis by simp
next
  case False
  then show ?thesis by simp
qed

lemma fold_add_weight_bounds:
  assumes nonneg: "\<forall>x\<in>set seq. (0::int) \<le> x"
  shows "acc \<le> fold (add_weight seq) (enumerate k bits) acc \<and>
         fold (add_weight seq) (enumerate k bits) acc \<le> acc + sum_list (drop k seq)"
proof (induction bits arbitrary: k acc)
  case Nil
  have "0 \<le> sum_list (drop k seq)"
    using nonneg by (intro sum_list_nonneg) (auto dest: in_set_dropD)
  then show ?case by simp
next
  case (Cons b bits)
  let ?acc' = "add_weight seq (k, b) acc"
  have ih: "?acc' \<le> fold (add_weight seq) (enumerate (Suc k) bits) ?acc' \<and>
            fold (add_weight seq) (enumerate (Suc k) bits) ?acc' \<le> ?acc' + sum_list (drop (Suc k) seq)"
    by (rule Cons.IH)
  have step: "acc \<le> ?acc' \<and> ?acc' + sum_list (drop (Suc k) seq) \<le> acc + sum_list (drop k seq)"
  proof (cases "b = CHR ''1'' \<and> k < length seq")
    case True
    then have "drop k seq = seq ! k # drop (Suc k) seq" by (simp add: Cons_nth_drop_Suc)
    moreover have "0 \<le> seq ! k" using nonneg True by simp
    ultimately show ?thesis using True by (simp add: add_weight_def)
  next
    case False
    then have "?acc' = acc" by (auto simp: add_weight_def)
    with sum_list_drop_Suc_le [OF nonneg, of k] show ?thesis by simp
  qed
  from ih step show ?case by simp
qed

lemma gzr_to_decimal_bounds:
  assumes "gzr_to_decimal chunk (Some seq255) = Some v"
  shows "0 \<le> v \<and> v \<le> 325"
proof (cases "chunk = [] \<or> chunk = ''0''")
  case True
  with assms show ?thesis by (auto simp: gzr_to_decimal_def)
next
  case False
  with assms have v: "v = fold (add_weight seq255) (enumerate 0 chunk) 0"
    by (auto simp: gzr_to_decimal_def)
  have "\<forall>x\<in>set seq255. (0::int) \<le> x" by (simp add: seq255_def)
  from fold_add_weight_bounds [OF this, of 0 0 chunk] v
  show ?thesis by (simp add: seq255_def)
qed

end
